theory Spec2Isabelle
  imports Complex_Main
begin

section \<open>Strings as the search engine sees them\<close>

text \<open>
  A Python \<open>str\<close> is a sequence of code points. The model uses \<open>string\<close> with one
  \<open>char\<close> per code point, so it covers texts and keywords in the range U+0000..U+00FF;
  \<open>length\<close> then counts what Python's \<open>len\<close> counts.

  \<open>lower_char\<close> is the case folding that \<open>re.IGNORECASE\<close> applies to a literal on this
  range: \<open>A..Z\<close> and the letters U+00C0..U+00DE (without the multiplication sign U+00D7)
  are moved to their lower-case partner 32 places above, every other character is kept.
\<close>

definition lower_char :: "char \<Rightarrow> char" where
  "lower_char c =
     (let n = (of_char c :: nat)
      in if (65 \<le> n \<and> n \<le> 90) \<or> (192 \<le> n \<and> n \<le> 222 \<and> n \<noteq> 215)
         then char_of (n + 32) else c)"

text \<open>\<open>str.isspace\<close> on the same range: the characters \<open>str.split()\<close> splits at.\<close>

definition isspace :: "char \<Rightarrow> bool" where
  "isspace c =
     (let n = (of_char c :: nat)
      in (9 \<le> n \<and> n \<le> 13) \<or> (28 \<le> n \<and> n \<le> 32) \<or> n = 133 \<or> n = 160)"

text \<open>
  \<open>match_at keyword s\<close>: the pattern \<open>re.escape(keyword)\<close>, compiled with
  \<open>re.IGNORECASE\<close>, matches at the beginning of \<open>s\<close>. The escaped pattern is a
  sequence of literals, one per character of the keyword, each compared after folding.
\<close>

fun match_at :: "string \<Rightarrow> string \<Rightarrow> bool" where
  "match_at [] s = True"
| "match_at (k # ks) [] = False"
| "match_at (k # ks) (c # cs) = (lower_char k = lower_char c \<and> match_at ks cs)"

text \<open>
  \<open>re.finditer(re.escape(keyword), page_text, re.IGNORECASE)\<close>, as the list of
  \<open>match.start()\<close> values. \<open>off\<close> is the offset of \<open>s\<close> in the page text. The scan is the
  regular expression engine's: leftmost match first, the next search starts at the end
  of the match just found; an empty pattern matches at every offset, the end included.
\<close>

function finditer_from :: "string \<Rightarrow> nat \<Rightarrow> string \<Rightarrow> nat list" where
  "finditer_from kw off s =
     (if kw = [] then (case s of [] \<Rightarrow> [off] | c # cs \<Rightarrow> off # finditer_from kw (Suc off) cs)
      else if match_at kw s
           then off # finditer_from kw (off + length kw) (drop (length kw) s)
      else (case s of [] \<Rightarrow> [] | c # cs \<Rightarrow> finditer_from kw (Suc off) cs))"
  by pat_completeness auto

termination
proof (relation "measure (\<lambda>(kw, off, s). length s)", goal_cases)
  case 1
  show ?case by simp
next
  case (2 kw off s c cs)
  then show ?case by simp
next
  case (3 kw off s)
  have fits: "match_at k t \<Longrightarrow> length k \<le> length t" for k t
    by (induction k t rule: match_at.induct) auto
  from 3 have "length kw \<le> length s" and "0 < length kw"
    by (simp_all add: fits)
  then have "length s - length kw < length s"
    by arith
  then show ?case by simp
next
  case (4 kw off s c cs)
  then show ?case by simp
qed

declare finditer_from.simps [simp del]

definition finditer :: "string \<Rightarrow> string \<Rightarrow> nat list" where
  "finditer kw page_text = finditer_from kw 0 page_text"

text \<open>
  \<open>re.sub(f'({re.escape(keyword)})', r'**\1**', context, flags=re.IGNORECASE)\<close>: the same
  scan over the context window, every match replaced by itself between two pairs of
  asterisks, the text between matches copied.
\<close>

function re_sub :: "string \<Rightarrow> string \<Rightarrow> string" where
  "re_sub kw s =
     (if kw = [] then (case s of [] \<Rightarrow> ''****'' | c # cs \<Rightarrow> ''****'' @ c # re_sub kw cs)
      else if match_at kw s
           then ''**'' @ take (length kw) s @ ''**'' @ re_sub kw (drop (length kw) s)
      else (case s of [] \<Rightarrow> [] | c # cs \<Rightarrow> c # re_sub kw cs))"
  by pat_completeness auto

termination
proof (relation "measure (\<lambda>(kw, s). length s)", goal_cases)
  case 1
  show ?case by simp
next
  case (2 kw s c cs)
  then show ?case by simp
next
  case (3 kw s)
  have fits: "match_at k t \<Longrightarrow> length k \<le> length t" for k t
    by (induction k t rule: match_at.induct) auto
  from 3 have "length kw \<le> length s" and "0 < length kw"
    by (simp_all add: fits)
  then have "length s - length kw < length s"
    by arith
  then show ?case by simp
next
  case (4 kw s c cs)
  then show ?case by simp
qed

declare re_sub.simps [simp del]

text \<open>\<open>s.split()\<close>: the maximal runs of non-whitespace characters, in order.\<close>

fun split_acc :: "string \<Rightarrow> string \<Rightarrow> string list" where
  "split_acc cur [] = (if cur = [] then [] else [cur])"
| "split_acc cur (c # cs) =
     (if isspace c then (if cur = [] then split_acc [] cs else cur # split_acc [] cs)
      else split_acc (cur @ [c]) cs)"

definition split :: "string \<Rightarrow> string list" where
  "split s = split_acc [] s"

text \<open>\<open>xs[a:b]\<close> for indices that are not negative.\<close>

definition slice :: "'a list \<Rightarrow> nat \<Rightarrow> nat \<Rightarrow> 'a list" where
  "slice xs a b = take (b - a) (drop a xs)"

text \<open>\<open>' '.join(words)\<close>.\<close>

fun join :: "string list \<Rightarrow> string" where
  "join [] = []"
| "join [w] = w"
| "join (w # v # ws) = w @ '' '' @ join (v # ws)"

text \<open>\<open>str(n)\<close> for an integer: its decimal digits, with a minus sign when negative.\<close>

fun str_nat :: "nat \<Rightarrow> string" where
  "str_nat n = (if n < 10 then [char_of (48 + n)] else str_nat (n div 10) @ [char_of (48 + n mod 10)])"

declare str_nat.simps [simp del]

definition str_int :: "int \<Rightarrow> string" where
  "str_int i = (if i < 0 then CHR ''-'' # str_nat (nat (- i)) else str_nat (nat i))"

section \<open>The document index\<close>

text \<open>
  A dictionary key is an integer or a string; Python never finds the integer \<open>0\<close> under
  the string \<open>'0'\<close>. A bounding box is a 4-tuple when the page processor or the search
  engine builds it and a list when \<open>json.load\<close> has read it. Coordinates are rational
  numbers: no claim depends on the rounding of the floating-point values they stand for.
\<close>

datatype key = KInt int | KStr string

datatype rect = PyTuple rat rat rat rat | PyList "rat list"

text \<open>A dictionary keeps its keys in insertion order; assigning to a key that is present
  replaces its value in place.\<close>

type_synonym ('k, 'v) dict = "('k \<times> 'v) list"

fun dict_set :: "'k \<Rightarrow> 'v \<Rightarrow> ('k, 'v) dict \<Rightarrow> ('k, 'v) dict" where
  "dict_set k v [] = [(k, v)]"
| "dict_set k v ((k', v') # d) = (if k' = k then (k, v) # d else (k', v') # dict_set k v d)"

definition dict_get :: "('k, 'v) dict \<Rightarrow> 'k \<Rightarrow> 'v option" where
  "dict_get d k = map_of d k"

type_synonym page_locations = "(key, rect) dict"

type_synonym locations = "(key, page_locations) dict"

record SearchResult =
  page :: nat
  context_str :: string
  position :: nat
  bbox :: rect

definition sentinel :: rect where
  "sentinel = PyTuple 0 0 0 0"

section \<open>The OCR capability, documents and the processor's state\<close>

text \<open>
  What \<open>self.ocr.ocr\<close> returns for a page: \<open>None\<close> or a list of lines; a line is
  \<open>None\<close> or a list of words; a word is the list of the corner points of its quadrilateral
  and its text (the confidence that comes with the text is never read).

  A document is its name (the path it was opened from) and, for each page, the outcome of
  lines 70 to 77 of \<open>process_pages\<close> on it (page access, rasterization at \<open>Matrix(2, 2)\<close>,
  PNG encoding and decoding, the OCR call): the message of the exception raised on the
  way, or the value the OCR capability returned.
\<close>

type_synonym point = "rat \<times> rat"

type_synonym word_info = "point list \<times> string"

type_synonym ocr_result = "word_info list option list option"

type_synonym page_outcome = "string + ocr_result"

record document =
  doc_name :: string
  doc_pages :: "page_outcome list"

datatype signal = progress_updated nat nat | status_updated string

record state =
  current_pdf :: "document option"
  page_texts :: "string list"
  word_locations :: locations

text \<open>
  A cache file is modelled by what \<open>json.load\<close> and the two subscripts of \<open>load_pdf\<close>
  make of it: \<open>Undecodable e\<close> when \<open>json.load\<close> raises or returns a value that cannot be
  subscripted by a string (\<open>e\<close> is the message of the exception); \<open>Decoded t l\<close> when it
  returns an object, \<open>t\<close> and \<open>l\<close> being its members \<open>texts\<close> and \<open>locations\<close>, \<open>None\<close> when
  the member is missing. The keys of a JSON object are strings and a JSON array is read as
  a list: the type says so. Members of another shape than the one \<open>process_pages\<close> writes
  are outside the model.
\<close>

type_synonym json_locations = "(string \<times> (string \<times> rat list) list) list"

datatype cache_file = Undecodable string | Decoded "string list option" "json_locations option"

text \<open>
  The world outside the processor: the string hash of the running interpreter (CPython
  salts it with a value drawn when the process starts, unless \<open>PYTHONHASHSEED\<close> fixes it),
  \<open>str\<close> of a float, \<open>fitz.open\<close> and \<open>os.path.getmtime\<close> (the message of the exception, or
  the value), and the files of the cache directory. Opening a cache file for reading or
  writing is taken to succeed; paths are joined as on POSIX.
\<close>

record world =
  py_hash :: "string \<Rightarrow> int"
  str_float :: "rat \<Rightarrow> string"
  fitz_open :: "string \<Rightarrow> string + document"
  getmtime :: "string \<Rightarrow> string + rat"
  files :: "string \<Rightarrow> cache_file option"

section \<open>The cache store\<close>

definition cache_dir :: string where
  "cache_dir = ''ocr_cache''"

definition pdf_hash :: "world \<Rightarrow> string \<Rightarrow> rat \<Rightarrow> string" where
  "pdf_hash w pdf_path mtime = str_int (py_hash w (pdf_path @ str_float w mtime))"

definition get_cache_path :: "world \<Rightarrow> string \<Rightarrow> string + string" where
  "get_cache_path w pdf_path =
     (case getmtime w pdf_path of
        Inl e \<Rightarrow> Inl e
      | Inr mtime \<Rightarrow> Inr (cache_dir @ ''/'' @ pdf_hash w pdf_path mtime @ ''.json''))"

text \<open>
  \<open>json.dump\<close> writes an integer key as its decimal string and a tuple as an array;
  \<open>json.load\<close> builds each object's dictionary pair by pair and each array as a list.
\<close>

definition json_key :: "key \<Rightarrow> string" where
  "json_key k = (case k of KInt i \<Rightarrow> str_int i | KStr s \<Rightarrow> s)"

definition json_rect :: "rect \<Rightarrow> rat list" where
  "json_rect r = (case r of PyTuple x0 y0 x1 y1 \<Rightarrow> [x0, y0, x1, y1] | PyList xs \<Rightarrow> xs)"

definition dump_page_locations :: "page_locations \<Rightarrow> (string \<times> rat list) list" where
  "dump_page_locations pl = map (\<lambda>(k, r). (json_key k, json_rect r)) pl"

definition dump_locations :: "locations \<Rightarrow> json_locations" where
  "dump_locations wl = map (\<lambda>(k, pl). (json_key k, dump_page_locations pl)) wl"

definition load_dict :: "(string \<times> 'v) list \<Rightarrow> (key, 'v) dict" where
  "load_dict ps = fold (\<lambda>(k, v) d. dict_set (KStr k) v d) ps []"

definition load_page_locations :: "(string \<times> rat list) list \<Rightarrow> page_locations" where
  "load_page_locations pl = load_dict (map (\<lambda>(k, xs). (k, PyList xs)) pl)"

definition load_locations :: "json_locations \<Rightarrow> locations" where
  "load_locations jl = load_dict (map (\<lambda>(k, pl). (k, load_page_locations pl)) jl)"

text \<open>Lines 107 to 111 of \<open>process_pages\<close>: the entry written under a cache path.\<close>

definition cache_put ::
  "(string \<Rightarrow> cache_file option) \<Rightarrow> string \<Rightarrow> string list \<Rightarrow> locations \<Rightarrow> (string \<Rightarrow> cache_file option)" where
  "cache_put fs cache_path texts locs =
     fs(cache_path \<mapsto> Decoded (Some texts) (Some (dump_locations locs)))"

definition key_error :: "string \<Rightarrow> string" where
  "key_error k = CHR 0x27 # k @ [CHR 0x27]"

text \<open>
  \<open>load_pdf\<close> returns its boolean, the processor's fields afterwards and the signals
  emitted. Every exception raised in its body ends in the one handler, which emits the
  status and returns \<open>False\<close>; fields assigned before the exception keep their new value.
\<close>

definition load_pdf :: "world \<Rightarrow> state \<Rightarrow> string \<Rightarrow> bool \<times> state \<times> signal list" where
  "load_pdf w st pdf_path =
     (case fitz_open w pdf_path of
        Inl e \<Rightarrow> (False, st, [status_updated (''Error loading PDF: '' @ e)])
      | Inr doc \<Rightarrow>
          (let st1 = st\<lparr>current_pdf := Some doc\<rparr>
           in case get_cache_path w pdf_path of
                Inl e \<Rightarrow> (False, st1, [status_updated (''Error loading PDF: '' @ e)])
              | Inr cache_path \<Rightarrow>
                  (case files w cache_path of
                     None \<Rightarrow> (True, st1\<lparr>page_texts := [], word_locations := []\<rparr>, [])
                   | Some (Undecodable e) \<Rightarrow>
                       (False, st1, [status_updated (''Error loading PDF: '' @ e)])
                   | Some (Decoded None l) \<Rightarrow>
                       (False, st1,
                        [status_updated (''Error loading PDF: '' @ key_error ''texts'')])
                   | Some (Decoded (Some t) None) \<Rightarrow>
                       (False, st1\<lparr>page_texts := t\<rparr>,
                        [status_updated (''Error loading PDF: '' @ key_error ''locations'')])
                   | Some (Decoded (Some t) (Some l)) \<Rightarrow>
                       (True, st1\<lparr>page_texts := t, word_locations := load_locations l\<rparr>,
                        [status_updated ''Loaded OCR results from cache'']))))"

section \<open>process_pages\<close>

text \<open>The rectangle of a word: the extreme coordinates of its corner points, halved.
  \<open>min\<close> and \<open>max\<close> raise on an empty sequence.\<close>

definition word_rect :: "point list \<Rightarrow> string + rect" where
  "word_rect quad =
     (case quad of
        [] \<Rightarrow> Inl ''min() arg is an empty sequence''
      | p # ps \<Rightarrow>
          Inr (PyTuple (fold min (map fst ps) (fst p) / 2) (fold min (map snd ps) (snd p) / 2)
                       (fold max (map fst ps) (fst p) / 2) (fold max (map snd ps) (snd p) / 2)))"

text \<open>The two nested loops over the OCR result; iterating over a line that is \<open>None\<close>
  raises a \<open>TypeError\<close>.\<close>

fun scan_line ::
  "word_info list \<Rightarrow> string list \<Rightarrow> page_locations \<Rightarrow> string + (string list \<times> page_locations)" where
  "scan_line [] page_text page_locs = Inr (page_text, page_locs)"
| "scan_line (word # rest) page_text page_locs =
     (case word_rect (fst word) of
        Inl e \<Rightarrow> Inl e
      | Inr r \<Rightarrow>
          (let page_text' = page_text @ [snd word]
           in scan_line rest page_text'
                (dict_set (KInt (int (length page_text') - 1)) r page_locs)))"

fun scan_result ::
  "word_info list option list \<Rightarrow> string list \<Rightarrow> page_locations \<Rightarrow>
     string + (string list \<times> page_locations)" where
  "scan_result [] page_text page_locs = Inr (page_text, page_locs)"
| "scan_result (line # rest) page_text page_locs =
     (case line of
        None \<Rightarrow> Inl (key_error ''NoneType'' @ '' object is not iterable'')
      | Some ws \<Rightarrow>
          (case scan_line ws page_text page_locs of
             Inl e \<Rightarrow> Inl e
           | Inr (page_text', page_locs') \<Rightarrow> scan_result rest page_text' page_locs'))"

text \<open>The body of the \<open>try\<close> of one page up to the two values it stores: the message of
  the exception that ends it, or the page's text and its word locations.\<close>

definition ocr_page :: "page_outcome \<Rightarrow> string + (string \<times> page_locations)" where
  "ocr_page outcome =
     (case outcome of
        Inl e \<Rightarrow> Inl e
      | Inr result \<Rightarrow>
          (case (case result of None \<Rightarrow> Inr ([], []) | Some ls \<Rightarrow> scan_result ls [] []) of
             Inl e \<Rightarrow> Inl e
           | Inr (page_text, page_locs) \<Rightarrow> Inr (join page_text, page_locs)))"

text \<open>The loop over the pages, from page \<open>page_num\<close> on: the fields and the signals so far
  go in, the fields and the signals at the end of the loop come out.\<close>

fun pages_loop ::
  "nat \<Rightarrow> nat \<Rightarrow> page_outcome list \<Rightarrow> state \<Rightarrow> signal list \<Rightarrow> state \<times> signal list" where
  "pages_loop total_pages page_num [] st sigs = (st, sigs)"
| "pages_loop total_pages page_num (p # ps) st sigs =
     (case ocr_page p of
        Inl e \<Rightarrow>
          pages_loop total_pages (Suc page_num) ps st
            (sigs @ [status_updated
                       (''Error processing page '' @ str_int (int page_num + 1) @ '': '' @ e)])
      | Inr (text, page_locs) \<Rightarrow>
          pages_loop total_pages (Suc page_num) ps
            (st\<lparr>page_texts := page_texts st @ [text],
                word_locations := dict_set (KInt (int page_num)) page_locs (word_locations st)\<rparr>)
            (sigs @ [progress_updated (page_num + 1) total_pages]))"

text \<open>
  \<open>process_pages\<close> returns the fields, the world (its cache files) and the signals.
  \<open>not self.current_pdf\<close> holds when no document is loaded and, a document's truth value
  being that of its length, when the document has no page.
\<close>

definition process_pages :: "world \<Rightarrow> state \<Rightarrow> state \<times> world \<times> signal list" where
  "process_pages w st =
     (case current_pdf st of
        None \<Rightarrow> (st, w, [])
      | Some doc \<Rightarrow>
          if doc_pages doc = [] then (st, w, [])
          else
            (let total_pages = length (doc_pages doc);
                 (st1, sigs) = pages_loop total_pages 0 (doc_pages doc)
                                 (st\<lparr>page_texts := [], word_locations := []\<rparr>) []
             in case get_cache_path w (doc_name doc) of
                  Inl e \<Rightarrow> (st1, w, sigs @ [status_updated (''Error saving cache: '' @ e)])
                | Inr cache_path \<Rightarrow>
                    (st1,
                     w\<lparr>files := cache_put (files w) cache_path (page_texts st1) (word_locations st1)\<rparr>,
                     sigs)))"

section \<open>search_text\<close>

text \<open>The body of the inner loop of \<open>search_text\<close>, for the match that starts at \<open>s\<close>.\<close>

definition match_result :: "locations \<Rightarrow> string \<Rightarrow> nat \<Rightarrow> string \<Rightarrow> nat \<Rightarrow> SearchResult" where
  "match_result wl keyword page_num page_text s =
     (let e = s + length keyword;
          start = nat (max 0 (int s - 50));
          stop = min (length page_text) (e + 50);
          ctx = re_sub keyword (slice page_text start stop);
          word_index = length (split (take s page_text));
          bb = (case dict_get wl (KInt (int page_num - 1)) of
                  None \<Rightarrow> sentinel
                | Some pl \<Rightarrow> (case dict_get pl (KInt (int word_index)) of
                               None \<Rightarrow> sentinel
                             | Some b \<Rightarrow> b))
      in \<lparr>page = page_num, context_str = ''...'' @ ctx @ ''...'', position = s, bbox = bb\<rparr>)"

definition search_page :: "locations \<Rightarrow> string \<Rightarrow> nat \<times> string \<Rightarrow> SearchResult list" where
  "search_page wl keyword p =
     map (match_result wl keyword (fst p) (snd p)) (finditer keyword (snd p))"

definition search_text :: "state \<Rightarrow> string \<Rightarrow> SearchResult list" where
  "search_text st keyword =
     concat (map (search_page (word_locations st) keyword) (enumerate 1 (page_texts st)))"

section \<open>Notions the properties are stated with\<close>

text \<open>
  Two results are in scan order when the first is on an earlier page, or on the same page
  at least \<open>gap\<close> characters before the second.
\<close>

definition before :: "nat \<Rightarrow> SearchResult \<Rightarrow> SearchResult \<Rightarrow> bool" where
  "before gap a b =
     (page a < page b \<or> (page a = page b \<and> position a + gap \<le> position b))"

text \<open>
  The number of whitespace-delimited tokens of \<open>t\<close> that strictly precede offset \<open>s\<close>: the
  tokens whose last character stands below \<open>s\<close>. Offset \<open>s\<close> cuts a token when the
  characters on both sides of it belong to one token.
\<close>

definition tokens_preceding :: "string \<Rightarrow> nat \<Rightarrow> nat" where
  "tokens_preceding t s =
     length (filter (\<lambda>i. \<not> isspace (t ! i) \<and> (length t \<le> Suc i \<or> isspace (t ! Suc i))) [0..<s])"

definition cuts_token :: "string \<Rightarrow> nat \<Rightarrow> bool" where
  "cuts_token t s = (0 < s \<and> s < length t \<and> \<not> isspace (t ! (s - 1)) \<and> \<not> isspace (t ! s))"

text \<open>
  The number of tokens of \<open>t\<close> that begin before offset \<open>s\<close>: the offsets below \<open>s\<close> that
  hold a character which is not whitespace and stand at the start of the text or right
  after a whitespace character. It is the number above, and one more when \<open>s\<close> cuts a
  token.
\<close>

definition tokens_before :: "string \<Rightarrow> nat \<Rightarrow> nat" where
  "tokens_before t s =
     length (filter (\<lambda>i. \<not> isspace (t ! i) \<and> (i = 0 \<or> isspace (t ! (i - 1)))) [0..<s])"

text \<open>
  Every offset at which the keyword occurs in \<open>t\<close>, case-insensitively, overlapping
  occurrences included.
\<close>

definition occurrences :: "string \<Rightarrow> string \<Rightarrow> nat list" where
  "occurrences kw t = filter (\<lambda>i. match_at kw (drop i t)) [0..<Suc (length t)]"

text \<open>
  The context of the match at \<open>s\<close> with the matched span alone between emphasis markers:
  the window from \<open>max(0, s - 50)\<close> to \<open>min(len(t), s + len(keyword) + 50)\<close>, cut at the two
  ends of the match.
\<close>

definition spec_context :: "string \<Rightarrow> string \<Rightarrow> nat \<Rightarrow> string" where
  "spec_context kw t s =
     (let start = nat (max 0 (int s - 50));
          stop = min (length t) (s + length kw + 50)
      in ''...'' @ slice t start s @ ''**'' @ slice t s (s + length kw) @ ''**''
           @ slice t (s + length kw) stop @ ''...'')"

text \<open>
  The text \<open>s\<close>, which begins at offset \<open>off\<close>, with the \<open>n\<close> characters at each of the
  offsets \<open>ps\<close> between two pairs of asterisks; the offsets ascend and the spans do not
  overlap.
\<close>

fun mark_spans :: "nat list \<Rightarrow> nat \<Rightarrow> nat \<Rightarrow> string \<Rightarrow> string" where
  "mark_spans [] n off s = s"
| "mark_spans (p # ps) n off s =
     take (p - off) s @ ''**'' @ take n (drop (p - off) s) @ ''**''
       @ mark_spans ps n (p + n) (drop (p - off + n) s)"

text \<open>
  What the loop of \<open>process_pages\<close> emits for page \<open>page_num\<close>; whether a page gets through
  the body of the \<open>try\<close>; which signals report progress; what saving the cache emits.
\<close>

definition page_signal :: "nat \<Rightarrow> nat \<Rightarrow> page_outcome \<Rightarrow> signal" where
  "page_signal total_pages page_num p =
     (case ocr_page p of
        Inl e \<Rightarrow> status_updated
                   (''Error processing page '' @ str_int (int page_num + 1) @ '': '' @ e)
      | Inr res \<Rightarrow> progress_updated (page_num + 1) total_pages)"

definition page_ok :: "page_outcome \<Rightarrow> bool" where
  "page_ok p = (case ocr_page p of Inl e \<Rightarrow> False | Inr res \<Rightarrow> True)"

fun is_progress :: "signal \<Rightarrow> bool" where
  "is_progress (progress_updated cur tot) = True"
| "is_progress (status_updated message) = False"

definition cache_signals :: "world \<Rightarrow> document \<Rightarrow> signal list" where
  "cache_signals w doc =
     (case get_cache_path w (doc_name doc) of
        Inl e \<Rightarrow> [status_updated (''Error saving cache: '' @ e)]
      | Inr cache_path \<Rightarrow> [])"

section \<open>Example documents\<close>

text \<open>
  An index given by its page texts and word locations; a page of two words with their
  quadrilaterals at twice the page scale; a document of that one page, and one whose first
  page is blank, for which the OCR capability returns a line that is \<open>None\<close>.
  \<open>world_of salt doc fs\<close> is a world in which every path opens \<open>doc\<close>, last modified at
  1700000000.5, with the cache files \<open>fs\<close>; its string hash, the salt plus the length
  of the string, stands in for the salted hash of an interpreter process.
\<close>

definition index_of :: "string list \<Rightarrow> locations \<Rightarrow> state" where
  "index_of texts locs = \<lparr>current_pdf = None, page_texts = texts, word_locations = locs\<rparr>"

definition two_words :: state where
  "two_words = index_of [''hello world'']
                 [(KInt 0, [(KInt 0, PyTuple 1 2 5 4), (KInt 1, PyTuple 6 2 10 4)])]"

text \<open>
  A page of 51 letters \<open>a\<close> followed by \<open>AAAaaa\<close>: the keyword \<open>aaa\<close> is found at
  every third offset, and the window of the match at offset 51 begins at offset 1.
\<close>

definition periodic_page :: string where
  "periodic_page = replicate 51 CHR ''a'' @ ''AAAaaa''"

definition hello_world :: "word_info list option" where
  "hello_world = Some [([(2, 4), (10, 4), (10, 8), (2, 8)], ''hello''),
                       ([(12, 4), (20, 4), (20, 8), (12, 8)], ''world'')]"

definition one_page_doc :: document where
  "one_page_doc = \<lparr>doc_name = ''a.pdf'', doc_pages = [Inr (Some [hello_world])]\<rparr>"

definition blank_first_doc :: document where
  "blank_first_doc =
     \<lparr>doc_name = ''a.pdf'', doc_pages = [Inr (Some [None]), Inr (Some [hello_world])]\<rparr>"

definition world_of :: "int \<Rightarrow> document \<Rightarrow> (string \<Rightarrow> cache_file option) \<Rightarrow> world" where
  "world_of salt doc fs =
     \<lparr>py_hash = (\<lambda>s. salt + int (length s)), str_float = (\<lambda>r. ''1700000000.5''),
      fitz_open = (\<lambda>p. Inr doc), getmtime = (\<lambda>p. Inr (3400000001 / 2)), files = fs\<rparr>"

definition loaded :: "document \<Rightarrow> state" where
  "loaded doc = \<lparr>current_pdf = Some doc, page_texts = [], word_locations = []\<rparr>"


definition after_processing :: "state \<times> world \<times> signal list" where
  "after_processing = process_pages (world_of 7 one_page_doc Map.empty) (loaded one_page_doc)"

definition reloaded :: "bool \<times> state \<times> signal list" where
  "reloaded = load_pdf (fst (snd after_processing)) (index_of [] []) ''a.pdf''"

section \<open>Properties of the scan\<close>

lemma match_at_length: "match_at kw s \<Longrightarrow> length kw \<le> length s"
  by (induction kw s rule: match_at.induct) auto

lemma finditer_from_empty_Nil: "finditer_from [] off [] = [off]"
  by (simp add: finditer_from.simps [of "[]" off "[]"])

lemma finditer_from_empty_Cons:
  "finditer_from [] off (c # cs) = off # finditer_from [] (Suc off) cs"
  by (simp add: finditer_from.simps [of "[]" off "c # cs"])

lemma finditer_from_match:
  "kw \<noteq> [] \<Longrightarrow> match_at kw s \<Longrightarrow>
     finditer_from kw off s = off # finditer_from kw (off + length kw) (drop (length kw) s)"
  by (simp add: finditer_from.simps [of kw off s])

lemma finditer_from_nomatch_Nil: "kw \<noteq> [] \<Longrightarrow> finditer_from kw off [] = []"
  by (cases kw) (simp_all add: finditer_from.simps [of _ off "[]"])

lemma finditer_from_nomatch_Cons:
  "kw \<noteq> [] \<Longrightarrow> \<not> match_at kw (c # cs) \<Longrightarrow>
     finditer_from kw off (c # cs) = finditer_from kw (Suc off) cs"
  by (simp add: finditer_from.simps [of kw off "c # cs"])

lemmas finditer_from_eqs =
  finditer_from_empty_Nil finditer_from_empty_Cons finditer_from_match
  finditer_from_nomatch_Nil finditer_from_nomatch_Cons

lemma finditer_from_sound:
  "x \<in> set (finditer_from kw off s) \<Longrightarrow>
     off \<le> x \<and> x + length kw \<le> off + length s \<and> match_at kw (drop (x - off) s)"
proof (induction kw off s rule: finditer_from.induct)
  case (1 kw off s)
  show ?case
  proof (cases "kw = []")
    case True
    show ?thesis
    proof (cases s)
      case Nil
      with True 1(4) show ?thesis by (simp add: finditer_from_eqs)
    next
      case (Cons c cs)
      from True Cons 1(4) have "x = off \<or> x \<in> set (finditer_from kw (Suc off) cs)"
        by (simp add: finditer_from_eqs)
      then show ?thesis
      proof
        assume "x = off" with True show ?thesis by simp
      next
        assume "x \<in> set (finditer_from kw (Suc off) cs)"
        from 1(1) [OF True Cons this] True Cons show ?thesis
          by (auto simp: Suc_diff_le)
      qed
    qed
  next
    case False
    show ?thesis
    proof (cases "match_at kw s")
      case True
      from False True 1(4)
      have "x = off \<or> x \<in> set (finditer_from kw (off + length kw) (drop (length kw) s))"
        by (simp add: finditer_from_eqs)
      then show ?thesis
      proof
        assume "x = off" with True match_at_length [OF True] show ?thesis by simp
      next
        assume a: "x \<in> set (finditer_from kw (off + length kw) (drop (length kw) s))"
        from 1(2) [OF False True a] match_at_length [OF True]
        have b: "off + length kw \<le> x" "x + length kw \<le> off + length s"
          "match_at kw (drop (x - (off + length kw)) (drop (length kw) s))"
          by auto
        from b(1) have "x - (off + length kw) + length kw = x - off" by simp
        with b show ?thesis by (simp add: add.commute)
      qed
    next
      case nm: False
      show ?thesis
      proof (cases s)
        case Nil
        with False nm 1(4) show ?thesis by (simp add: finditer_from_eqs)
      next
        case (Cons c cs)
        with False nm 1(4) have a: "x \<in> set (finditer_from kw (Suc off) cs)"
          by (simp add: finditer_from_eqs)
        from 1(3) [OF False nm Cons a]
        have b: "Suc off \<le> x" "x + length kw \<le> Suc off + length cs"
          "match_at kw (drop (x - Suc off) cs)"
          by auto
        from b(1) have "x - off = Suc (x - Suc off)" by simp
        with b Cons show ?thesis by simp
      qed
    qed
  qed
qed

lemma finditer_from_lower: "x \<in> set (finditer_from kw off s) \<Longrightarrow> off \<le> x"
  using finditer_from_sound by blast

lemma finditer_from_sorted:
  "sorted_wrt (\<lambda>a b. a + max 1 (length kw) \<le> b) (finditer_from kw off s)"
proof (induction kw off s rule: finditer_from.induct)
  case (1 kw off s)
  show ?case
  proof (cases "kw = []")
    case True
    show ?thesis
    proof (cases s)
      case Nil
      with True show ?thesis by (simp add: finditer_from_eqs)
    next
      case (Cons c cs)
      with True 1(1) [OF True Cons] show ?thesis
        by (auto simp: finditer_from_eqs dest: finditer_from_lower)
    qed
  next
    case False
    show ?thesis
    proof (cases "match_at kw s")
      case True
      from False have m: "max (Suc 0) (length kw) = length kw" by (cases kw) simp_all
      from False True 1(2) [OF False True] show ?thesis
        by (auto simp: finditer_from_eqs m dest!: finditer_from_lower)
    next
      case nm: False
      show ?thesis
      proof (cases s)
        case Nil
        with False nm show ?thesis by (simp add: finditer_from_eqs)
      next
        case (Cons c cs)
        with False nm 1(3) [OF False nm Cons] show ?thesis
          by (simp add: finditer_from_eqs)
      qed
    qed
  qed
qed

lemma finditer_from_complete:
  "i \<le> length s \<Longrightarrow> match_at kw (drop i s) \<Longrightarrow>
     \<exists>x \<in> set (finditer_from kw off s). x \<le> off + i \<and> off + i < x + max 1 (length kw)"
proof (induction kw off s arbitrary: i rule: finditer_from.induct)
  case (1 kw off s)
  show ?case
  proof (cases "kw = []")
    case True
    show ?thesis
    proof (cases s)
      case Nil
      with True 1(4) show ?thesis by (simp add: finditer_from_eqs)
    next
      case (Cons c cs)
      show ?thesis
      proof (cases i)
        case 0
        with True Cons show ?thesis by (simp add: finditer_from_eqs)
      next
        case (Suc j)
        with 1(4) 1(5) Cons have "j \<le> length cs" "match_at kw (drop j cs)" by simp_all
        from 1(1) [OF True Cons this] Suc True Cons show ?thesis
          by (auto simp: finditer_from_eqs)
      qed
    qed
  next
    case False
    show ?thesis
    proof (cases "match_at kw s")
      case True
      show ?thesis
      proof (cases "i < length kw")
        case lt: True
        with False True show ?thesis
          by (auto simp: finditer_from_eqs max_def)
      next
        case ge: False
        then have "length kw \<le> i" by simp
        with 1(4) 1(5) have "i - length kw \<le> length (drop (length kw) s)"
          "match_at kw (drop (i - length kw) (drop (length kw) s))"
          by (simp_all add: add.commute)
        from 1(2) [OF False True this] \<open>length kw \<le> i\<close> False True show ?thesis
          by (auto simp: finditer_from_eqs)
      qed
    next
      case nm: False
      show ?thesis
      proof (cases s)
        case Nil
        with False nm 1(4) 1(5) show ?thesis by simp
      next
        case (Cons c cs)
        show ?thesis
        proof (cases i)
          case 0
          with nm 1(5) show ?thesis by simp
        next
          case (Suc j)
          with 1(4) 1(5) Cons have "j \<le> length cs" "match_at kw (drop j cs)" by simp_all
          from 1(3) [OF False nm Cons this] Suc False nm Cons show ?thesis
            by (auto simp: finditer_from_eqs)
        qed
      qed
    qed
  qed
qed

lemma finditer_from_empty: "finditer_from [] off s = [off..<Suc (off + length s)]"
proof (induction s arbitrary: off)
  case Nil
  show ?case by (simp add: finditer_from_eqs)
next
  case (Cons c cs)
  show ?case
    by (simp add: finditer_from_eqs Cons upt_conv_Cons del: upt_Suc)
qed

lemma finditer_sound:
  "s \<in> set (finditer kw t) \<Longrightarrow> s + length kw \<le> length t \<and> match_at kw (drop s t)"
  using finditer_from_sound [of s kw 0 t] by (simp add: finditer_def)

lemma finditer_complete:
  "i \<le> length t \<Longrightarrow> match_at kw (drop i t) \<Longrightarrow>
     \<exists>s \<in> set (finditer kw t). s \<le> i \<and> i < s + max 1 (length kw)"
  using finditer_from_complete [of i t kw 0] by (simp add: finditer_def)

section \<open>Properties of search_text\<close>

lemma match_result_fields [simp]:
  "page (match_result wl kw n t s) = n"
  "position (match_result wl kw n t s) = s"
  by (simp_all add: match_result_def Let_def)

lemma in_search_text:
  "r \<in> set (search_text st kw) \<longleftrightarrow>
     (\<exists>i < length (page_texts st). \<exists>s \<in> set (finditer kw (page_texts st ! i)).
        r = match_result (word_locations st) kw (Suc i) (page_texts st ! i) s)"
proof
  assume "r \<in> set (search_text st kw)"
  then obtain p s where p: "p \<in> set (enumerate 1 (page_texts st))"
    and s: "s \<in> set (finditer kw (snd p))"
    and r: "r = match_result (word_locations st) kw (fst p) (snd p) s"
    by (auto simp: search_text_def search_page_def)
  from p have "1 \<le> fst p" "fst p < length (page_texts st) + 1"
    "page_texts st ! (fst p - 1) = snd p"
    by (simp_all add: in_set_enumerate_eq)
  with s r show "\<exists>i < length (page_texts st). \<exists>s \<in> set (finditer kw (page_texts st ! i)).
        r = match_result (word_locations st) kw (Suc i) (page_texts st ! i) s"
    by (intro exI [of _ "fst p - 1"]) auto
next
  assume "\<exists>i < length (page_texts st). \<exists>s \<in> set (finditer kw (page_texts st ! i)).
        r = match_result (word_locations st) kw (Suc i) (page_texts st ! i) s"
  then obtain i s where i: "i < length (page_texts st)"
    and s: "s \<in> set (finditer kw (page_texts st ! i))"
    and r: "r = match_result (word_locations st) kw (Suc i) (page_texts st ! i) s"
    by blast
  from i have "(Suc i, page_texts st ! i) \<in> set (enumerate 1 (page_texts st))"
    by (simp add: in_set_enumerate_eq)
  with s r show "r \<in> set (search_text st kw)"
    by (force simp: search_text_def search_page_def)
qed

lemma result_page_text:
  assumes "r \<in> set (search_text st kw)"
  obtains i where "i < length (page_texts st)" "page r = Suc i"
    "position r \<in> set (finditer kw (page_texts st ! i))"
    "r = match_result (word_locations st) kw (Suc i) (page_texts st ! i) (position r)"
  using assms unfolding in_search_text by auto

lemma search_page_sorted:
  "sorted_wrt (before (max 1 (length kw))) (search_page wl kw (n, t))"
proof -
  have "sorted_wrt (\<lambda>a b. a + max 1 (length kw) \<le> b) (finditer kw t)"
    unfolding finditer_def by (rule finditer_from_sorted)
  then show ?thesis
    by (simp add: search_page_def sorted_wrt_map before_def)
qed

lemma search_pages_lower:
  "r \<in> set (concat (map (search_page wl kw) (enumerate n ts))) \<Longrightarrow> n \<le> page r"
  by (auto simp: search_page_def in_set_enumerate_eq)

lemma search_pages_sorted:
  "sorted_wrt (before (max 1 (length kw)))
     (concat (map (search_page wl kw) (enumerate n ts)))"
proof (induction ts arbitrary: n)
  case Nil
  show ?case by simp
next
  case (Cons t ts)
  have here: "page a = n" if "a \<in> set (search_page wl kw (n, t))" for a
    using that by (auto simp: search_page_def)
  have later: "before (max 1 (length kw)) a b"
    if "a \<in> set (search_page wl kw (n, t))"
      and "b \<in> set (concat (map (search_page wl kw) (enumerate (Suc n) ts)))" for a b
    using here [OF that(1)] search_pages_lower [OF that(2)] by (simp add: before_def)
  from Cons [of "Suc n"] search_page_sorted [of kw wl n t] later show ?case
    by (simp add: sorted_wrt_append)
qed

lemma search_text_sorted:
  "sorted_wrt (before (max 1 (length kw))) (search_text st kw)"
  using search_pages_sorted [of kw "word_locations st" 1 "page_texts st"]
  by (simp add: search_text_def)

lemma split_acc_snoc:
  "length (split_acc cur (xs @ [c])) =
     length (split_acc cur xs) +
       (if \<not> isspace c \<and> (if xs = [] then cur = [] else isspace (last xs)) then 1 else 0)"
  by (induction xs arbitrary: cur) auto

lemma split_take_tokens: "s \<le> length t \<Longrightarrow> length (split (take s t)) = tokens_before t s"
proof (induction s)
  case 0
  show ?case by (simp add: split_def tokens_before_def)
next
  case (Suc s)
  then have s: "s < length t" by simp
  then have tk: "take (Suc s) t = take s t @ [t ! s]"
    by (simp add: take_Suc_conv_app_nth)
  have lst: "last (take s t) = t ! (s - 1)" if "0 < s"
  proof -
    from that s have "take s t \<noteq> []" by auto
    then have "last (take s t) = take s t ! (length (take s t) - 1)"
      by (rule last_conv_nth)
    with that s show ?thesis by (simp add: min_def)
  qed
  have emp: "(take s t = []) = (s = 0)" using s by auto
  from Suc s have ih: "length (split (take s t)) = tokens_before t s" by simp
  have cond: "(if take s t = [] then [] = ([]::string) else isspace (last (take s t))) =
                (s = 0 \<or> isspace (t ! (s - 1)))"
    using emp lst by (cases "s = 0") simp_all
  have "length (split (take (Suc s) t)) =
          length (split (take s t)) +
            (if \<not> isspace (t ! s) \<and> (s = 0 \<or> isspace (t ! (s - 1))) then 1 else 0)"
    unfolding tk split_def split_acc_snoc cond ..
  moreover have "tokens_before t (Suc s) =
          tokens_before t s +
            (if \<not> isspace (t ! s) \<and> (s = 0 \<or> isspace (t ! (s - 1))) then 1 else 0)"
    by (simp add: tokens_before_def)
  ultimately show ?case using ih by simp
qed

lemma slice_nth: "b \<le> length xs \<Longrightarrow> slice xs a b = map ((!) xs) [a..<b]"
  by (rule nth_equalityI) (auto simp: slice_def)

lemma tokens_before_cut:
  "s \<le> length t \<Longrightarrow>
     tokens_before t s = tokens_preceding t s + (if cuts_token t s then 1 else 0)"
proof (induction s)
  case 0
  show ?case by (simp add: tokens_before_def tokens_preceding_def cuts_token_def)
next
  case (Suc s)
  then have ih: "tokens_before t s = tokens_preceding t s + (if cuts_token t s then 1 else 0)"
    and s: "s < length t" by simp_all
  have b: "tokens_before t (Suc s) =
             tokens_before t s + (if \<not> isspace (t ! s) \<and> (s = 0 \<or> isspace (t ! (s - 1))) then 1 else 0)"
    by (simp add: tokens_before_def)
  have p: "tokens_preceding t (Suc s) =
             tokens_preceding t s +
               (if \<not> isspace (t ! s) \<and> (length t \<le> Suc s \<or> isspace (t ! Suc s)) then 1 else 0)"
    by (simp add: tokens_preceding_def)
  show ?case
    unfolding b p ih using s by (auto simp: cuts_token_def)
qed

lemma mark_spans_shift:
  assumes "\<forall>p \<in> set ps. Suc off \<le> p"
  shows "mark_spans ps n off (c # cs) = c # mark_spans ps n (Suc off) cs"
proof (cases ps)
  case Nil
  then show ?thesis by simp
next
  case (Cons p ps')
  with assms have "Suc off \<le> p" by simp
  then have "p - off = Suc (p - Suc off)" by simp
  with Cons show ?thesis by simp
qed

lemma re_sub_empty_Nil: "re_sub [] [] = ''****''"
  by (simp add: re_sub.simps [of "[]" "[]"])

lemma re_sub_empty_Cons: "re_sub [] (c # cs) = ''****'' @ c # re_sub [] cs"
  by (simp add: re_sub.simps [of "[]" "c # cs"])

lemma re_sub_match:
  "kw \<noteq> [] \<Longrightarrow> match_at kw s \<Longrightarrow>
     re_sub kw s = ''**'' @ take (length kw) s @ ''**'' @ re_sub kw (drop (length kw) s)"
  by (simp add: re_sub.simps [of kw s])

lemma re_sub_nomatch_Nil: "kw \<noteq> [] \<Longrightarrow> re_sub kw [] = []"
  by (cases kw) (simp_all add: re_sub.simps [of _ "[]"])

lemma re_sub_nomatch_Cons:
  "kw \<noteq> [] \<Longrightarrow> \<not> match_at kw (c # cs) \<Longrightarrow> re_sub kw (c # cs) = c # re_sub kw cs"
  by (simp add: re_sub.simps [of kw "c # cs"])

lemma re_sub_mark_spans:
  "re_sub kw s = mark_spans (finditer_from kw off s) (length kw) off s"
proof (induction kw off s rule: finditer_from.induct)
  case (1 kw off s)
  show ?case
  proof (cases "kw = []")
    case True
    show ?thesis
    proof (cases s)
      case Nil
      with True show ?thesis by (simp add: finditer_from_eqs re_sub_empty_Nil)
    next
      case (Cons c cs)
      have low: "\<forall>p \<in> set (finditer_from [] (Suc off) cs). Suc off \<le> p"
        by (auto dest: finditer_from_lower)
      from 1(1) [OF True Cons] True
      have ih: "re_sub [] cs = mark_spans (finditer_from [] (Suc off) cs) 0 (Suc off) cs"
        by simp
      from True Cons show ?thesis
        by (simp add: finditer_from_eqs re_sub_empty_Cons ih mark_spans_shift [OF low])
    qed
  next
    case False
    show ?thesis
    proof (cases "match_at kw s")
      case True
      from 1(2) [OF False True] False True show ?thesis
        by (simp add: finditer_from_eqs re_sub_match)
    next
      case nm: False
      show ?thesis
      proof (cases s)
        case Nil
        with False show ?thesis by (simp add: finditer_from_eqs re_sub_nomatch_Nil)
      next
        case (Cons c cs)
        have low: "\<forall>p \<in> set (finditer_from kw (Suc off) cs). Suc off \<le> p"
          by (auto dest: finditer_from_lower)
        from 1(3) [OF False nm Cons]
        have ih: "re_sub kw cs = mark_spans (finditer_from kw (Suc off) cs) (length kw) (Suc off) cs" .
        from False nm Cons show ?thesis
          by (simp add: finditer_from_eqs re_sub_nomatch_Cons ih mark_spans_shift [OF low])
      qed
    qed
  qed
qed

lemma match_at_take: "match_at kw u \<Longrightarrow> length kw \<le> m \<Longrightarrow> match_at kw (take m u)"
proof (induction kw u arbitrary: m rule: match_at.induct)
  case (1 s)
  show ?case by simp
next
  case (2 k ks)
  then show ?case by simp
next
  case (3 k ks c cs)
  then obtain m' where "m = Suc m'" by (cases m) auto
  with 3 show ?case by simp
qed

lemma match_result_bbox_no_page:
  "dict_get wl (KInt (int n - 1)) = None \<Longrightarrow> bbox (match_result wl kw n t s) = sentinel"
  by (simp add: match_result_def Let_def)

text \<open>
  The two searches of the text \<open>The Quick Brown Fox\<close> that differ in case only find the
  same single match.
\<close>

lemma quick_brown_fox:
  "map position (search_text (index_of [''The Quick Brown Fox''] []) ''quick'') = [4] \<and>
   map position (search_text (index_of [''The Quick Brown Fox''] []) ''QUICK'') = [4]"
  by code_simp

text \<open>
  Claim C4 says that a search with the empty keyword returns no result. \<open>search_text\<close>
  does not fail on the empty keyword, but the empty pattern matches at every offset: the
  results are one per offset \<open>0..len(page_text)\<close> of every page, in page order, and there
  is none only when the index has no page.
\<close>

theorem search_text_empty_keyword:
  "map (\<lambda>r. (page r, position r)) (search_text st []) =
     concat (map (\<lambda>(p, t). map (Pair p) [0..<Suc (length t)]) (enumerate 1 (page_texts st)))
   \<and> length (search_text st []) = sum_list (map (\<lambda>t. Suc (length t)) (page_texts st))
   \<and> (search_text st [] = []) = (page_texts st = [])"
proof -
  have page: "search_page wl [] (p, t) = map (match_result wl [] p t) [0..<Suc (length t)]"
    for wl p t
    by (simp add: search_page_def finditer_def finditer_from_empty)
  have one: "map (\<lambda>r. (page r, position r)) (search_page wl [] pt) =
               (\<lambda>(p, t). map (Pair p) [0..<Suc (length t)]) pt" for wl pt
    by (cases pt) (simp add: page del: upt_Suc)
  have a: "map (\<lambda>r. (page r, position r)) (search_text st []) =
     concat (map (\<lambda>(p, t). map (Pair p) [0..<Suc (length t)]) (enumerate 1 (page_texts st)))"
    unfolding search_text_def map_concat map_map comp_def one ..
  have len: "length (concat (map (\<lambda>(p, t). map (Pair p) [0..<Suc (length t)]) (enumerate n ts))) =
               sum_list (map (\<lambda>t. Suc (length t)) ts)" for n ts
    by (induction ts arbitrary: n) (simp_all del: upt_Suc)
  have "length (search_text st []) = length (map (\<lambda>r. (page r, position r)) (search_text st []))"
    by simp
  also have "\<dots> = sum_list (map (\<lambda>t. Suc (length t)) (page_texts st))"
    unfolding a by (rule len)
  finally have b: "length (search_text st []) = sum_list (map (\<lambda>t. Suc (length t)) (page_texts st))" .
  have c: "(search_text st [] = []) = (page_texts st = [])"
  proof (cases "page_texts st")
    case Nil
    then show ?thesis by (simp add: search_text_def)
  next
    case (Cons t ts)
    with b have "length (search_text st []) \<noteq> 0" by simp
    with Cons show ?thesis by auto
  qed
  from a b c show ?thesis by blast
qed

text \<open>
  An index of the one page \<open>ab\<close> has results for the empty keyword.
\<close>

theorem search_text_empty_keyword_counterexample:
  "search_text (index_of [''ab''] []) [] \<noteq> []"
  by code_simp

text \<open>
  Claim C6, on the scan the code runs: the results are in scan order, by page and then
  by offset, two results of a page at least \<open>max(1, len(keyword))\<close> apart; every result
  is a case-insensitive literal occurrence of the keyword in the text of its page; and
  every occurrence is reported or begins inside a reported one that starts no later.
  An occurrence that overlaps a reported one is not reported.
\<close>

theorem search_results_scan:
  "sorted_wrt (before (max 1 (length kw))) (search_text st kw)
   \<and> (\<forall>r \<in> set (search_text st kw).
        1 \<le> page r \<and> page r \<le> length (page_texts st) \<and>
        position r + length kw \<le> length (page_texts st ! (page r - 1)) \<and>
        match_at kw (drop (position r) (page_texts st ! (page r - 1))))
   \<and> (\<forall>p i. p < length (page_texts st) \<and> i \<le> length (page_texts st ! p) \<and>
             match_at kw (drop i (page_texts st ! p)) \<longrightarrow>
          (\<exists>r \<in> set (search_text st kw).
             page r = Suc p \<and> position r \<le> i \<and> i < position r + max 1 (length kw)))"
proof (intro conjI ballI allI impI)
  show "sorted_wrt (before (max 1 (length kw))) (search_text st kw)"
    by (rule search_text_sorted)
next
  fix r assume r: "r \<in> set (search_text st kw)"
  then obtain i where i: "i < length (page_texts st)" "page r = Suc i"
    "position r \<in> set (finditer kw (page_texts st ! i))"
    by (rule result_page_text)
  from i show "1 \<le> page r" "page r \<le> length (page_texts st)" by simp_all
  from finditer_sound [OF i(3)] i(2)
  show "position r + length kw \<le> length (page_texts st ! (page r - 1))"
    "match_at kw (drop (position r) (page_texts st ! (page r - 1)))"
    by simp_all
next
  fix p i
  assume a: "p < length (page_texts st) \<and> i \<le> length (page_texts st ! p) \<and>
             match_at kw (drop i (page_texts st ! p))"
  then obtain s where s: "s \<in> set (finditer kw (page_texts st ! p))"
    "s \<le> i" "i < s + max 1 (length kw)"
    using finditer_complete [of i "page_texts st ! p" kw] by blast
  let ?r = "match_result (word_locations st) kw (Suc p) (page_texts st ! p) s"
  from a s(1) have "?r \<in> set (search_text st kw)"
    unfolding in_search_text by blast
  with s(2,3) show "\<exists>r \<in> set (search_text st kw).
             page r = Suc p \<and> position r \<le> i \<and> i < position r + max 1 (length kw)"
    by (intro bexI [of _ ?r]) simp_all
qed

text \<open>
  The keyword \<open>aa\<close> occurs twice in \<open>aaa\<close>, at offsets 0 and 1; the search reports the
  first occurrence only.
\<close>

theorem search_results_scan_counterexample:
  "map position (search_text (index_of [''aaa''] []) ''aa'') \<noteq> occurrences ''aa'' ''aaa''"
  by code_simp

theorem search_results_scan_witness:
  "(\<exists>r \<in> set (search_text (index_of [''The Quick Brown Fox''] []) ''QUICK'').
      page r = 1 \<and> position r \<le> 4 \<and> 4 < position r + 5)"
proof -
  have m: "match_at ''QUICK'' (drop 4 ''The Quick Brown Fox'')" by code_simp
  have "0 < length (page_texts (index_of [''The Quick Brown Fox''] [])) \<and>
        4 \<le> length (page_texts (index_of [''The Quick Brown Fox''] []) ! 0) \<and>
        match_at ''QUICK'' (drop 4 (page_texts (index_of [''The Quick Brown Fox''] []) ! 0))"
    using m by (simp add: index_of_def)
  with search_results_scan [of "''QUICK''" "index_of [''The Quick Brown Fox''] []"]
  show ?thesis by (simp del: match_at.simps drop_Suc_Cons) blast
qed

text \<open>
  Claim C7, on the context the code builds: the window runs from
  \<open>max(0, s - 50)\<close> to \<open>min(pageLen, s + len(keyword) + 50)\<close>, lies inside the page text
  (every index read is below its length) and contains the match; the context is that
  window between two ellipses, with emphasis markers around the spans that a scan of the
  window itself finds, from the first character of the window, left to right and without
  overlap. Every marked span is a case-insensitive occurrence of the keyword in the
  window; every occurrence in the window is marked or begins inside a marked span; so
  does the match. Other occurrences in the window are marked too, and the matched span
  need not be one of the marked spans.
\<close>

theorem context_window:
  assumes "r \<in> set (search_text st kw)"
  shows "1 \<le> page r \<and> page r \<le> length (page_texts st) \<and>
     (let t = page_texts st ! (page r - 1); s = position r;
          start = nat (max 0 (int s - 50)); stop = min (length t) (s + length kw + 50);
          window = map ((!) t) [start..<stop]; spans = finditer kw window
      in start \<le> s \<and> s + length kw \<le> stop \<and> stop \<le> length t \<and>
         context_str r = ''...'' @ mark_spans spans (length kw) 0 window @ ''...'' \<and>
         sorted_wrt (\<lambda>a b. a + max 1 (length kw) \<le> b) spans \<and>
         (\<forall>p \<in> set spans. p + length kw \<le> length window \<and> match_at kw (drop p window)) \<and>
         (\<forall>i. i \<le> length window \<and> match_at kw (drop i window) \<longrightarrow>
            (\<exists>p \<in> set spans. p \<le> i \<and> i < p + max 1 (length kw))) \<and>
         (\<exists>p \<in> set spans. p \<le> s - start \<and> s - start < p + max 1 (length kw)))"
proof -
  from assms obtain i where i: "i < length (page_texts st)" "page r = Suc i"
    "position r \<in> set (finditer kw (page_texts st ! i))"
    "r = match_result (word_locations st) kw (Suc i) (page_texts st ! i) (position r)"
    by (rule result_page_text)
  define t where "t = page_texts st ! i"
  define s where "s = position r"
  define start where "start = nat (max 0 (int s - 50))"
  define stop where "stop = min (length t) (s + length kw + 50)"
  define window where "window = map ((!) t) [start..<stop]"
  define spans where "spans = finditer kw window"
  from finditer_sound [OF i(3)] have le: "s + length kw \<le> length t"
    and m: "match_at kw (drop s t)" by (simp_all add: s_def t_def)
  have b: "start \<le> s" "s + length kw \<le> stop" "stop \<le> length t"
    using le by (simp_all add: start_def stop_def)
  have w: "slice t start stop = window"
    unfolding window_def by (rule slice_nth) (rule b(3))
  have ctx: "context_str r = ''...'' @ re_sub kw window @ ''...''"
    unfolding w [symmetric] start_def stop_def s_def t_def
    by (subst i(4)) (simp add: match_result_def Let_def)
  have mk: "re_sub kw window = mark_spans spans (length kw) 0 window"
    unfolding spans_def finditer_def by (rule re_sub_mark_spans)
  have srt: "sorted_wrt (\<lambda>a b. a + max 1 (length kw) \<le> b) spans"
    unfolding spans_def finditer_def by (rule finditer_from_sorted)
  have snd: "\<forall>p \<in> set spans. p + length kw \<le> length window \<and> match_at kw (drop p window)"
    unfolding spans_def by (auto dest: finditer_sound)
  have cmp: "\<forall>i. i \<le> length window \<and> match_at kw (drop i window) \<longrightarrow>
            (\<exists>p \<in> set spans. p \<le> i \<and> i < p + max 1 (length kw))"
    unfolding spans_def using finditer_complete [of _ window kw] by blast
  have wlen: "length window = stop - start" by (simp add: window_def)
  have "drop (s - start) window = take (stop - s) (drop s t)"
    using b unfolding w [symmetric] slice_def by (simp add: drop_take)
  moreover have "match_at kw (take (stop - s) (drop s t))"
    using m b by (intro match_at_take) simp_all
  ultimately have "match_at kw (drop (s - start) window)" by simp
  moreover have "s - start \<le> length window" using b by (simp add: wlen)
  ultimately have own: "\<exists>p \<in> set spans. p \<le> s - start \<and> s - start < p + max 1 (length kw)"
    using cmp by blast
  have pg: "page r - 1 = i" using i(2) by simp
  from i(1,2) b ctx mk srt snd cmp own show ?thesis
    unfolding Let_def pg
    unfolding t_def [symmetric] s_def [symmetric]
    unfolding start_def [symmetric]
    unfolding stop_def [symmetric]
    unfolding window_def [symmetric]
    unfolding spans_def [symmetric]
    by simp
qed

text \<open>
  In the page of 51 letters \<open>a\<close> and \<open>AAAaaa\<close>, the scan of the window of the match at
  offset 51 is out of step with the scan of the page: the markers cut the matched span
  \<open>AAA\<close> in two.
\<close>

theorem context_window_counterexample:
  "match_result [] ''aaa'' 1 periodic_page 51 \<in> set (search_text (index_of [periodic_page] []) ''aaa'') \<and>
   context_str (match_result [] ''aaa'' 1 periodic_page 51) =
     ''...'' @ concat (replicate 16 ''**aaa**'') @ ''**aaA****AAa**aa...'' \<and>
   context_str (match_result [] ''aaa'' 1 periodic_page 51) \<noteq>
     spec_context ''aaa'' periodic_page 51"
proof -
  have f: "51 \<in> set (finditer ''aaa'' periodic_page)" by code_simp
  have "match_result [] ''aaa'' 1 periodic_page 51 \<in> set (search_text (index_of [periodic_page] []) ''aaa'')"
    unfolding in_search_text using f by (auto simp: index_of_def)
  moreover have "context_str (match_result [] ''aaa'' 1 periodic_page 51) =
     ''...'' @ concat (replicate 16 ''**aaa**'') @ ''**aaA****AAa**aa...''"
    by code_simp
  moreover have "context_str (match_result [] ''aaa'' 1 periodic_page 51) \<noteq>
     spec_context ''aaa'' periodic_page 51"
    by code_simp
  ultimately show ?thesis by blast
qed

theorem context_window_witness:
  "context_str (hd (search_text (index_of [''ab ab''] []) ''ab'')) = ''...**ab** **ab**...''"
proof -
  let ?st = "index_of [''ab ab''] []"
  let ?r = "hd (search_text ?st ''ab'')"
  let ?t = "page_texts ?st ! (page ?r - 1)"
  let ?w = "map ((!) ?t) [nat (max 0 (int (position ?r) - 50))..<
                           min (length ?t) (position ?r + length ''ab'' + 50)]"
  have "?r \<in> set (search_text ?st ''ab'')" by code_simp
  from context_window [OF this, unfolded Let_def]
  have c: "context_str ?r = ''...'' @ mark_spans (finditer ''ab'' ?w) (length ''ab'') 0 ?w @ ''...''"
    by blast
  have "''...'' @ mark_spans (finditer ''ab'' ?w) (length ''ab'') 0 ?w @ ''...'' = ''...**ab** **ab**...''"
    by code_simp
  with c show ?thesis by simp
qed

text \<open>
  In the page \<open>ab ab\<close> the context of the first match has both occurrences between
  emphasis markers.
\<close>

lemma context_marks_other_occurrences:
  "context_str (hd (search_text (index_of [''ab ab''] []) ''ab'')) \<noteq>
     spec_context ''ab'' ''ab ab'' (position (hd (search_text (index_of [''ab ab''] []) ''ab'')))"
  by code_simp

text \<open>
  Claim C8 says that the ordinal is the number of tokens strictly preceding the match
  start. The code counts the tokens of the text before the match start: those that
  strictly precede it and, when the match begins inside a token, that token as well. The
  box is looked up under the integer key \<open>page - 1\<close> and then under that ordinal, and is
  the zero rectangle when the page or the ordinal is absent. A match that begins at the
  first character of a token gets the box of its token; a match that begins inside a
  token is looked up one ordinal too far.
\<close>

theorem bbox_resolution:
  assumes "r \<in> set (search_text st kw)"
  shows "1 \<le> page r \<and> page r \<le> length (page_texts st) \<and>
     bbox r =
       (case dict_get (word_locations st) (KInt (int (page r) - 1)) of
          None \<Rightarrow> sentinel
        | Some pl \<Rightarrow>
            (case dict_get pl
                    (KInt (int (tokens_preceding (page_texts st ! (page r - 1)) (position r)
                                + (if cuts_token (page_texts st ! (page r - 1)) (position r)
                                   then 1 else 0)))) of
               None \<Rightarrow> sentinel
             | Some b \<Rightarrow> b))"
proof -
  from assms obtain i where i: "i < length (page_texts st)" "page r = Suc i"
    "position r \<in> set (finditer kw (page_texts st ! i))"
    "r = match_result (word_locations st) kw (Suc i) (page_texts st ! i) (position r)"
    by (rule result_page_text)
  from finditer_sound [OF i(3)] have le: "position r \<le> length (page_texts st ! i)" by simp
  have tok: "length (split (take (position r) (page_texts st ! i))) =
               tokens_preceding (page_texts st ! i) (position r)
                 + (if cuts_token (page_texts st ! i) (position r) then 1 else 0)"
    using split_take_tokens [OF le] tokens_before_cut [OF le] by simp
  have "bbox r =
       (case dict_get (word_locations st) (KInt (int (Suc i) - 1)) of
          None \<Rightarrow> sentinel
        | Some pl \<Rightarrow>
            (case dict_get pl
                    (KInt (int (length (split (take (position r) (page_texts st ! i)))))) of
               None \<Rightarrow> sentinel
             | Some b \<Rightarrow> b))"
    by (subst i(4)) (simp add: match_result_def Let_def)
  with tok i(1,2) show ?thesis by (simp cong: option.case_cong)
qed

text \<open>
  The keyword \<open>ello\<close> matches inside the first token of \<open>hello world\<close>: no token
  precedes the match, the box of the first token is recorded under ordinal 0, and the
  result carries the box of the second token.
\<close>

theorem bbox_resolution_witness:
  "position (hd (search_text two_words ''ello'')) = 1 \<and>
   tokens_preceding ''hello world'' 1 = 0 \<and>
   cuts_token ''hello world'' 1 \<and>
   bbox (hd (search_text two_words ''ello'')) = PyTuple 6 2 10 4 \<and>
   dict_get [(KInt 0, PyTuple 1 2 5 4), (KInt 1, PyTuple 6 2 10 4)] (KInt 0) = Some (PyTuple 1 2 5 4)"
proof -
  have e: "search_text two_words ''ello'' =
     [\<lparr>page = 1, context_str = ''...h**ello** world...'', position = 1, bbox = PyTuple 6 2 10 4\<rparr>]"
    by code_simp
  have t: "tokens_preceding ''hello world'' 1 = 0" "cuts_token ''hello world'' 1" by code_simp+
  have "hd (search_text two_words ''ello'') \<in> set (search_text two_words ''ello'')"
    unfolding e by simp
  from bbox_resolution [OF this]
  have "bbox (hd (search_text two_words ''ello'')) = PyTuple 6 2 10 4"
    unfolding e by (simp add: two_words_def index_of_def t dict_get_def)
  with t e show ?thesis by (simp add: dict_get_def)
qed

lemma last_token_match_gets_sentinel:
  "map position (search_text two_words ''d'') = [10] \<and>
   tokens_preceding ''hello world'' 10 = 1 \<and>
   map bbox (search_text two_words ''d'') = [sentinel]"
  by code_simp

lemma token_start_match_gets_its_box:
  "map position (search_text two_words ''world'') = [6] \<and>
   tokens_preceding ''hello world'' 6 = 1 \<and> \<not> cuts_token ''hello world'' 6 \<and>
   map bbox (search_text two_words ''world'') = [PyTuple 6 2 10 4]"
  by code_simp

section \<open>Properties of process_pages\<close>

lemma pages_loop_signals:
  "snd (pages_loop tot n ps st sigs) =
     sigs @ map (\<lambda>(i, p). page_signal tot i p) (enumerate n ps)"
  by (induction ps arbitrary: n st sigs) (auto simp: page_signal_def split: sum.splits)

lemma pages_loop_texts:
  "length (page_texts (fst (pages_loop tot n ps st sigs))) =
     length (page_texts st) + length (filter page_ok ps)"
  by (induction ps arbitrary: n st sigs) (auto simp: page_ok_def split: sum.splits)

lemma pages_loop_current_pdf:
  "current_pdf (fst (pages_loop tot n ps st sigs)) = current_pdf st"
  by (induction ps arbitrary: n st sigs) (auto split: sum.splits)

lemma process_pages_texts:
  assumes "current_pdf st = Some doc" and "doc_pages doc \<noteq> []"
  shows "length (page_texts (fst (process_pages w st))) = length (filter page_ok (doc_pages doc))"
proof -
  let ?loop = "pages_loop (length (doc_pages doc)) 0 (doc_pages doc)
                 (st\<lparr>page_texts := [], word_locations := []\<rparr>) []"
  have "fst (process_pages w st) = fst ?loop"
    using assms
    by (simp add: process_pages_def Let_def split_beta split: sum.splits)
  then show ?thesis by (simp add: pages_loop_texts)
qed

text \<open>
  Claim C1 says that the page texts have one entry per page of the document. A page whose
  \<open>try\<close> body raises is skipped: nothing is appended for it (\<open>process_pages_texts\<close>
  counts the entries). For the document whose first page is blank, two pages give one page
  text, and the word of the second page is reported on page 1.
\<close>

theorem process_pages_skips_failed_page:
  "length (doc_pages blank_first_doc) = 2 \<and>
   page_texts (fst (process_pages (world_of 7 blank_first_doc Map.empty) (loaded blank_first_doc)))
     = [''hello world''] \<and>
   map page (search_text (fst (process_pages (world_of 7 blank_first_doc Map.empty)
                                             (loaded blank_first_doc))) ''world'') = [1]"
  by code_simp

text \<open>
  Claim C9, on the signals the code emits: for a document with at least one page, the
  signals of \<open>process_pages\<close> are one per page, in page order: the progress
  \<open>(page_num + 1, total_pages)\<close> for a page that got through, the status
  \<open>Error processing page ...\<close> and no progress for a page that failed; then the status of
  a failed cache write, if any.
\<close>

theorem process_pages_signals:
  assumes "current_pdf st = Some doc" and "doc_pages doc \<noteq> []"
  shows "snd (snd (process_pages w st)) =
           map (\<lambda>(i, p). page_signal (length (doc_pages doc)) i p) (enumerate 0 (doc_pages doc))
           @ cache_signals w doc"
proof -
  let ?loop = "pages_loop (length (doc_pages doc)) 0 (doc_pages doc)
                 (st\<lparr>page_texts := [], word_locations := []\<rparr>) []"
  have "snd (snd (process_pages w st)) = snd ?loop @ cache_signals w doc"
    using assms
    by (simp add: process_pages_def cache_signals_def Let_def split_beta split: sum.splits)
  then show ?thesis by (simp add: pages_loop_signals)
qed

text \<open>
  For the document whose first page is blank, the only progress signal is the one of the
  second page.
\<close>

theorem process_pages_signals_counterexample:
  "filter is_progress (snd (snd (process_pages (world_of 7 blank_first_doc Map.empty)
                                               (loaded blank_first_doc)))) =
     [progress_updated 2 2]"
  by code_simp

theorem process_pages_signals_witness:
  "snd (snd (process_pages (world_of 7 blank_first_doc Map.empty) (loaded blank_first_doc))) =
     [status_updated (''Error processing page 1: '' @ key_error ''NoneType'' @ '' object is not iterable''),
      progress_updated 2 2]"
proof -
  have a: "current_pdf (loaded blank_first_doc) = Some blank_first_doc" by (simp add: loaded_def)
  have b: "doc_pages blank_first_doc \<noteq> []" by (simp add: blank_first_doc_def)
  have c: "map (\<lambda>(i, p). page_signal (length (doc_pages blank_first_doc)) i p)
             (enumerate 0 (doc_pages blank_first_doc))
           @ cache_signals (world_of 7 blank_first_doc Map.empty) blank_first_doc =
     [status_updated (''Error processing page 1: '' @ key_error ''NoneType'' @ '' object is not iterable''),
      progress_updated 2 2]"
    by code_simp
  from process_pages_signals [OF a b, of "world_of 7 blank_first_doc Map.empty"] show ?thesis
    unfolding c .
qed

section \<open>Properties of the cache store\<close>

lemma dict_set_keys: "fst ` set (dict_set k v d) = insert k (fst ` set d)"
proof (induction d)
  case Nil
  show ?case by simp
next
  case (Cons p d)
  obtain k' v' where p: "p = (k', v')" by (cases p)
  show ?case
  proof (cases "k' = k")
    case True
    with p show ?thesis by simp
  next
    case False
    with p Cons show ?thesis by (simp add: insert_commute)
  qed
qed

lemma load_dict_keys_aux:
  "fst ` set (fold (\<lambda>(k, v) d. dict_set (KStr k) v d) ps d0) =
     fst ` set d0 \<union> KStr ` fst ` set ps"
proof (induction ps arbitrary: d0)
  case Nil
  show ?case by simp
next
  case (Cons p ps)
  let ?f = "\<lambda>(k, v) d. dict_set (KStr k) v d"
  have step: "fst ` set (?f p d0) = insert (KStr (fst p)) (fst ` set d0)"
    by (cases p) (simp add: dict_set_keys)
  have "fst ` set (fold ?f (p # ps) d0) = fst ` set (?f p d0) \<union> KStr ` fst ` set ps"
    by (simp only: fold.simps comp_apply Cons)
  also have "\<dots> = fst ` set d0 \<union> KStr ` fst ` set (p # ps)"
    unfolding step by auto
  finally show ?case .
qed

lemma load_dict_no_int_key: "dict_get (load_dict ps) (KInt i) = None"
proof -
  have "KInt i \<notin> fst ` set (load_dict ps)"
    unfolding load_dict_def load_dict_keys_aux by auto
  then show ?thesis by (simp add: dict_get_def map_of_eq_None_iff)
qed

lemma digit_inj: "a < 10 \<Longrightarrow> b < 10 \<Longrightarrow> char_of (48 + a :: nat) = char_of (48 + b) \<Longrightarrow> a = b"
  by (simp add: char_of_eq_iff take_bit_eq_mod)

lemma digit_not_minus: "d < 10 \<Longrightarrow> char_of (48 + d :: nat) \<noteq> CHR ''-''"
proof
  assume d: "d < 10" and "char_of (48 + d) = CHR ''-''"
  then have "of_char (char_of (48 + d) :: char) = (of_char CHR ''-'' :: nat)" by simp
  with d show False by (simp add: take_bit_eq_mod)
qed

lemma str_nat_nonempty: "str_nat n \<noteq> []"
  by (subst str_nat.simps) simp

lemma str_nat_no_minus: "CHR ''-'' \<notin> set (str_nat n)"
proof (induction n rule: str_nat.induct)
  case (1 n)
  show ?case
  proof (cases "n < 10")
    case True
    then show ?thesis
      using digit_not_minus [of n] by (subst str_nat.simps) auto
  next
    case False
    have "n mod 10 < 10" by simp
    from digit_not_minus [OF this] False 1 show ?thesis
      by (subst str_nat.simps) auto
  qed
qed

lemma str_nat_inj: "str_nat n = str_nat m \<Longrightarrow> n = m"
proof (induction n arbitrary: m rule: str_nat.induct)
  case (1 n)
  show ?case
  proof (cases "n < 10")
    case n: True
    show ?thesis
    proof (cases "m < 10")
      case True
      with n 1(2) show ?thesis
        by (simp add: str_nat.simps [of n] str_nat.simps [of m] digit_inj)
    next
      case False
      with n 1(2) str_nat_nonempty [of "m div 10"] show ?thesis
        by (simp add: str_nat.simps [of n] str_nat.simps [of m])
    qed
  next
    case n: False
    show ?thesis
    proof (cases "m < 10")
      case True
      with n 1(2) str_nat_nonempty [of "n div 10"] show ?thesis
        by (simp add: str_nat.simps [of n] str_nat.simps [of m])
    next
      case False
      with n 1(2) have e: "str_nat (n div 10) = str_nat (m div 10)"
        "char_of (48 + n mod 10) = (char_of (48 + m mod 10) :: char)"
        by (simp_all add: str_nat.simps [of n] str_nat.simps [of m])
      from 1(1) [OF n e(1)] have "n div 10 = m div 10" .
      moreover from e(2) have "n mod 10 = m mod 10"
        by (intro digit_inj) simp_all
      ultimately show ?thesis by (metis div_mult_mod_eq)
    qed
  qed
qed

lemma str_int_inj: "str_int i = str_int j \<Longrightarrow> i = j"
proof -
  assume e: "str_int i = str_int j"
  have hd_digit: "hd (str_nat n) \<noteq> CHR ''-''" for n
    using str_nat_no_minus [of n] str_nat_nonempty [of n] by (cases "str_nat n") auto
  show ?thesis
  proof (cases "i < 0")
    case i: True
    show ?thesis
    proof (cases "j < 0")
      case True
      with i e have "nat (- i) = nat (- j)" by (simp add: str_int_def str_nat_inj)
      with i True show ?thesis by simp
    next
      case False
      with i e have "CHR ''-'' # str_nat (nat (- i)) = str_nat (nat j)" by (simp add: str_int_def)
      then have "hd (str_nat (nat j)) = CHR ''-''" by (metis list.sel(1))
      with hd_digit show ?thesis by blast
    qed
  next
    case i: False
    show ?thesis
    proof (cases "j < 0")
      case True
      with i e have "str_nat (nat i) = CHR ''-'' # str_nat (nat (- j))" by (simp add: str_int_def)
      then have "hd (str_nat (nat i)) = CHR ''-''" by (metis list.sel(1))
      with hd_digit show ?thesis by blast
    next
      case False
      with i e have "nat i = nat j" by (simp add: str_int_def str_nat_inj)
      with i False show ?thesis by simp
    qed
  qed
qed

text \<open>
  Claim C2 says that what is put in the cache is read back unchanged. The page texts are;
  the word locations come back with every integer key as its decimal string and every
  bounding box as a list, and the search, which looks keys up as integers, no longer finds
  the boxes it found in the index that was saved.
\<close>

theorem cache_round_trip_changes_locations:
  "word_locations (fst after_processing) =
     [(KInt 0, [(KInt 0, PyTuple 1 2 5 4), (KInt 1, PyTuple 6 2 10 4)])] \<and>
   fst reloaded \<and>
   page_texts (fst (snd reloaded)) = page_texts (fst after_processing) \<and>
   word_locations (fst (snd reloaded)) =
     [(KStr ''0'', [(KStr ''0'', PyList [1, 2, 5, 4]), (KStr ''1'', PyList [6, 2, 10, 4])])] \<and>
   map bbox (search_text (fst after_processing) ''world'') = [PyTuple 6 2 10 4] \<and>
   map bbox (search_text (fst (snd reloaded)) ''world'') = [PyTuple 0 0 0 0]"
  by code_simp




text \<open>
  Claim C5 says that the fingerprint depends on the path and the modification time only.
  The cache path is the decimal string of the interpreter's string hash: two processes
  whose hashes of the same path and time differ name two different cache files.
\<close>

theorem get_cache_path_follows_hash:
  assumes "getmtime w1 p = Inr m" and "getmtime w2 p = Inr m"
    and "str_float w1 = str_float w2"
    and "py_hash w1 (p @ str_float w1 m) \<noteq> py_hash w2 (p @ str_float w2 m)"
  shows "get_cache_path w1 p \<noteq> get_cache_path w2 p"
  using assms by (auto simp: get_cache_path_def pdf_hash_def dest: str_int_inj)

theorem get_cache_path_follows_hash_witness:
  "get_cache_path (world_of 7 one_page_doc Map.empty) ''a.pdf'' \<noteq>
   get_cache_path (world_of 8 one_page_doc Map.empty) ''a.pdf''"
proof -
  let ?w1 = "world_of 7 one_page_doc Map.empty" and ?w2 = "world_of 8 one_page_doc Map.empty"
  have a: "getmtime ?w1 ''a.pdf'' = Inr (3400000001 / 2)"
    and b: "getmtime ?w2 ''a.pdf'' = Inr (3400000001 / 2)"
    and c: "str_float ?w1 = str_float ?w2"
    and d: "py_hash ?w1 (''a.pdf'' @ str_float ?w1 (3400000001 / 2)) \<noteq>
            py_hash ?w2 (''a.pdf'' @ str_float ?w2 (3400000001 / 2))"
    by (simp_all add: world_of_def)
  from get_cache_path_follows_hash [OF a b c d] show ?thesis .
qed

text \<open>
  Claim C10: when \<open>load_pdf\<close> has restored the index from the cache, the word locations
  have string keys only, the integer lookup of the search misses, and every result
  carries the zero rectangle.
\<close>

theorem cache_restored_index_sentinel:
  assumes "load_pdf w st pdf_path = (ok, st', sigs)"
    and "status_updated ''Loaded OCR results from cache'' \<in> set sigs"
  shows "\<forall>r \<in> set (search_text st' kw). bbox r = sentinel"
proof
  fix r assume r: "r \<in> set (search_text st' kw)"
  have neq: "''Loaded OCR results from cache'' \<noteq> ''Error loading PDF: '' @ e" for e
    by simp
  from assms obtain l where "word_locations st' = load_locations l"
    by (auto simp: load_pdf_def Let_def split: sum.splits option.splits cache_file.splits)
  then have none: "dict_get (word_locations st') (KInt i) = None" for i
    by (simp add: load_locations_def load_dict_no_int_key)
  from r obtain i where
    i: "r = match_result (word_locations st') kw (Suc i) (page_texts st' ! i) (position r)"
    by (rule result_page_text)
  show "bbox r = sentinel"
    by (subst i) (rule match_result_bbox_no_page, rule none)
qed

theorem cache_restored_index_sentinel_witness:
  "bbox (hd (search_text (fst (snd reloaded)) ''world'')) = sentinel"
proof -
  have e: "reloaded =
     (True,
      \<lparr>current_pdf = Some one_page_doc, page_texts = [''hello world''],
        word_locations =
          [(KStr ''0'', [(KStr ''0'', PyList [1, 2, 5, 4]), (KStr ''1'', PyList [6, 2, 10, 4])])]\<rparr>,
      [status_updated ''Loaded OCR results from cache''])"
    by code_simp
  have m: "hd (search_text (fst (snd reloaded)) ''world'') \<in>
             set (search_text (fst (snd reloaded)) ''world'')"
    by code_simp
  have l: "load_pdf (fst (snd after_processing)) (index_of [] []) ''a.pdf'' =
             (fst reloaded, fst (snd reloaded), snd (snd reloaded))"
    by (simp add: reloaded_def)
  have s: "status_updated ''Loaded OCR results from cache'' \<in> set (snd (snd reloaded))"
    unfolding e by simp
  from cache_restored_index_sentinel [OF l s, of "''world''"] m show ?thesis by blast
qed

end
